theory Spec2Isabelle
  imports Complex_Main
begin

unbundle bit_operations_syntax

section \<open>Values of macro sequences\<close>

text \<open>
  The items of a macro sequence are arbitrary Python values; \<open>code.py\<close> tells them
  apart with \<open>isinstance\<close>. The model keeps the five classes the interpreter tests for
  (\<open>int\<close>, \<open>float\<close>, \<open>str\<close>, \<open>list\<close>, \<open>dict\<close>) and two that it does not
  (\<open>None\<close> and tuples). A \<open>bool\<close> is an \<open>int\<close> in Python and is identified with its
  integer value. A float is represented by the real number it denotes: the code only
  compares floats with zero, negates them and hands them on. Dictionaries are association
  lists from string keys; the code only looks up string literals.
\<close>

datatype pyval =
    PInt int
  | PFloat real
  | PStr string
  | PList "pyval list"
  | PDict "(string \<times> pyval) list"
  | PNone
  | PTuple "pyval list"

datatype error = TypeError | OSError | ZeroDivisionError | ValueError

text \<open>\<open>v >= 0\<close> and \<open>v > 0\<close>: defined on numbers, \<open>TypeError\<close> on every other class.\<close>

fun py_ge0 :: "pyval \<Rightarrow> error + bool" where
  "py_ge0 (PInt i) = Inr (0 \<le> i)"
| "py_ge0 (PFloat f) = Inr (0 \<le> f)"
| "py_ge0 _ = Inl TypeError"

fun py_gt0 :: "pyval \<Rightarrow> error + bool" where
  "py_gt0 (PInt i) = Inr (0 < i)"
| "py_gt0 (PFloat f) = Inr (0 < f)"
| "py_gt0 _ = Inl TypeError"

text \<open>Unary minus; it is only reached after \<open>py_ge0\<close> has succeeded, so on numbers.\<close>

fun py_neg :: "pyval \<Rightarrow> pyval" where
  "py_neg (PInt i) = PInt (- i)"
| "py_neg (PFloat f) = PFloat (- f)"
| "py_neg v = v"

text \<open>\<open>d[k] if k in d else 0\<close>\<close>

definition get_or_0 :: "(string \<times> pyval) list \<Rightarrow> string \<Rightarrow> pyval" where
  "get_or_0 d k = (case map_of d k of Some v \<Rightarrow> v | None \<Rightarrow> PInt 0)"

section \<open>Calls on the collaborators\<close>

text \<open>
  Every effect of \<open>code.py\<close> is a call on the \<open>macropad\<close> object, on the display group
  or on \<open>time.sleep\<close>. A run of the program is the list of these calls, in order. The
  calls are taken to return normally; an exception can only come from the Python
  operators of \<open>code.py\<close> itself.
\<close>

datatype call =
    KeyPress int                   \<comment> \<open>\<open>macropad.keyboard.press\<close>\<close>
  | KeyRelease int                 \<comment> \<open>\<open>macropad.keyboard.release\<close>\<close>
  | KeyReleaseAll                  \<comment> \<open>\<open>macropad.keyboard.release_all\<close>\<close>
  | TextWrite string               \<comment> \<open>\<open>macropad.keyboard_layout.write\<close>\<close>
  | MediaPress int                 \<comment> \<open>\<open>macropad.consumer_control.press\<close>\<close>
  | MediaRelease                   \<comment> \<open>\<open>macropad.consumer_control.release\<close>\<close>
  | MousePress pyval               \<comment> \<open>\<open>macropad.mouse.press\<close>\<close>
  | MouseRelease pyval             \<comment> \<open>\<open>macropad.mouse.release\<close>\<close>
  | MouseReleaseAll                \<comment> \<open>\<open>macropad.mouse.release_all\<close>\<close>
  | MouseMove pyval pyval pyval    \<comment> \<open>\<open>macropad.mouse.move\<close>\<close>
  | ToneStart pyval                \<comment> \<open>\<open>macropad.start_tone\<close>\<close>
  | ToneStop                       \<comment> \<open>\<open>macropad.stop_tone\<close>\<close>
  | PlayFile pyval                 \<comment> \<open>\<open>macropad.play_file\<close>\<close>
  | Sleep real                     \<comment> \<open>\<open>time.sleep\<close>\<close>
  | PixelSet nat int               \<comment> \<open>\<open>macropad.pixels[i] = c\<close>\<close>
  | PixelsShow                     \<comment> \<open>\<open>macropad.pixels.show\<close>\<close>
  | LabelSet nat string            \<comment> \<open>\<open>group[i].text = s\<close>, \<open>i < 12\<close>\<close>
  | TitleSet string                \<comment> \<open>\<open>group[13].text = s\<close>\<close>
  | DisplayShowMenu                \<comment> \<open>\<open>macropad.display.show(group)\<close>\<close>
  | DisplayShowIcon string         \<comment> \<open>\<open>macropad.display.show(sprite_group)\<close>, with the image path\<close>
  | SpriteFrame nat                \<comment> \<open>\<open>sprite_group[0][0] = current_frame\<close>\<close>
  | DisplayRefresh                 \<comment> \<open>\<open>macropad.display.refresh\<close>\<close>

text \<open>
  A block of statements yields the calls it made and the exception that ended it, if any.
  \<open>then_do\<close> is sequential composition: the second block runs only if the first one
  ended normally.
\<close>

type_synonym outcome = "call list \<times> error option"

definition then_do :: "outcome \<Rightarrow> outcome \<Rightarrow> outcome" where
  "then_do r1 r2 =
     (case r1 of
        (c1, Some e) \<Rightarrow> (c1, Some e)
      | (c1, None) \<Rightarrow> (c1 @ fst r2, snd r2))"

definition calls :: "call list \<Rightarrow> outcome" where
  "calls cs = (cs, None)"

definition raise :: "error \<Rightarrow> outcome" where
  "raise e = ([], Some e)"

section \<open>The press branch of the main loop\<close>

text \<open>The inner loop over a list item (consumer control codes and float delays).\<close>

fun play_code :: "pyval \<Rightarrow> call list" where
  "play_code (PInt code) = [MediaRelease, MediaPress code]"
| "play_code (PFloat code) = [Sleep code]"
| "play_code _ = []"

fun play_codes :: "pyval list \<Rightarrow> call list" where
  "play_codes [] = []"
| "play_codes (code # rest) = play_code code @ play_codes rest"

text \<open>The three parts of the \<open>dict\<close> branch.\<close>

definition play_buttons :: "(string \<times> pyval) list \<Rightarrow> outcome" where
  "play_buttons d =
     (case map_of d ''buttons'' of
        None \<Rightarrow> calls []
      | Some b \<Rightarrow>
          (case py_ge0 b of
             Inl e \<Rightarrow> raise e
           | Inr True \<Rightarrow> calls [MousePress b]
           | Inr False \<Rightarrow> calls [MouseRelease (py_neg b)]))"

definition play_move :: "(string \<times> pyval) list \<Rightarrow> outcome" where
  "play_move d = calls [MouseMove (get_or_0 d ''x'') (get_or_0 d ''y'') (get_or_0 d ''wheel'')]"

definition play_tone :: "(string \<times> pyval) list \<Rightarrow> outcome" where
  "play_tone d =
     (case map_of d ''tone'' of
        Some t \<Rightarrow>
          (case py_gt0 t of
             Inl e \<Rightarrow> raise e
           | Inr True \<Rightarrow> calls [ToneStop, ToneStart t]
           | Inr False \<Rightarrow> calls [ToneStop])
      | None \<Rightarrow>
          (case map_of d ''play'' of
             Some f \<Rightarrow> calls [PlayFile f]
           | None \<Rightarrow> calls []))"

text \<open>One iteration of \<open>for item in sequence\<close> in the press branch.\<close>

fun play_item :: "pyval \<Rightarrow> outcome" where
  "play_item (PInt item) =
     (if 0 \<le> item then calls [KeyPress item] else calls [KeyRelease (- item)])"
| "play_item (PFloat item) = calls [Sleep item]"
| "play_item (PStr item) = calls [TextWrite item]"
| "play_item (PList item) = calls (play_codes item)"
| "play_item (PDict item) = then_do (play_buttons item) (then_do (play_move item) (play_tone item))"
| "play_item _ = calls []"

fun play :: "pyval list \<Rightarrow> outcome" where
  "play [] = calls []"
| "play (item # rest) = then_do (play_item item) (play rest)"

text \<open>The classes the press branch has a case for.\<close>

fun recognized :: "pyval \<Rightarrow> bool" where
  "recognized PNone = False"
| "recognized (PTuple _) = False"
| "recognized _ = True"

section \<open>The release branch of the main loop\<close>

fun release_item :: "pyval \<Rightarrow> outcome" where
  "release_item (PInt item) = (if 0 \<le> item then calls [KeyRelease item] else calls [])"
| "release_item (PDict item) =
     (case map_of item ''buttons'' of
        Some b \<Rightarrow>
          (case py_ge0 b of
             Inl e \<Rightarrow> raise e
           | Inr True \<Rightarrow> calls [MouseRelease b]
           | Inr False \<Rightarrow> calls [])
      | None \<Rightarrow>
          (case map_of item ''tone'' of
             Some t \<Rightarrow> calls [ToneStop]
           | None \<Rightarrow> calls []))"
| "release_item _ = calls []"

fun release_items :: "pyval list \<Rightarrow> outcome" where
  "release_items [] = calls []"
| "release_items (item # rest) = then_do (release_item item) (release_items rest)"

text \<open>The loop followed by \<open>macropad.consumer_control.release()\<close>.\<close>

definition release :: "pyval list \<Rightarrow> outcome" where
  "release sequence = then_do (release_items sequence) (calls [MediaRelease])"

section \<open>The device behind the calls\<close>

text \<open>
  What the host and the user see after a list of calls, following the interface of the
  output sink, the key LEDs and the display: the keys held on the keyboard, the consumer
  control codes pressed and not yet released, the mask of held mouse buttons, the tone
  that sounds, the pixel buffer and the colours last shown (\<open>auto_write\<close> is off), the
  twelve key labels, the title and the group on the display. Writing a non-empty text
  presses and releases every character and leaves no key held. A consumer control press
  adds its code and a release takes all codes back, so that the device does not decide by
  itself that only one code can be pressed. A mouse mask that is not an integer changes
  no button.
\<close>

datatype screen = Menu | Icon string

record device =
  keys :: "int set"
  media :: "int set"
  buttons :: int
  tone :: "pyval option"
  pixels :: "int list"
  leds :: "int list"
  labels :: "string list"
  title :: string
  root_group :: screen

fun apply_call :: "call \<Rightarrow> device \<Rightarrow> device" where
  "apply_call (KeyPress k) d = d\<lparr>keys := insert k (keys d)\<rparr>"
| "apply_call (KeyRelease k) d = d\<lparr>keys := keys d - {k}\<rparr>"
| "apply_call KeyReleaseAll d = d\<lparr>keys := {}\<rparr>"
| "apply_call (TextWrite s) d = (if s = [] then d else d\<lparr>keys := {}\<rparr>)"
| "apply_call (MediaPress c) d = d\<lparr>media := insert c (media d)\<rparr>"
| "apply_call MediaRelease d = d\<lparr>media := {}\<rparr>"
| "apply_call (MousePress (PInt b)) d = d\<lparr>buttons := buttons d OR b\<rparr>"
| "apply_call (MouseRelease (PInt b)) d = d\<lparr>buttons := buttons d AND NOT b\<rparr>"
| "apply_call MouseReleaseAll d = d\<lparr>buttons := 0\<rparr>"
| "apply_call (ToneStart t) d = d\<lparr>tone := Some t\<rparr>"
| "apply_call ToneStop d = d\<lparr>tone := None\<rparr>"
| "apply_call (PixelSet i c) d = d\<lparr>pixels := (pixels d)[i := c]\<rparr>"
| "apply_call PixelsShow d = d\<lparr>leds := pixels d\<rparr>"
| "apply_call (LabelSet i s) d = d\<lparr>labels := (labels d)[i := s]\<rparr>"
| "apply_call (TitleSet s) d = d\<lparr>title := s\<rparr>"
| "apply_call DisplayShowMenu d = d\<lparr>root_group := Menu\<rparr>"
| "apply_call (DisplayShowIcon p) d = d\<lparr>root_group := Icon p\<rparr>"
| "apply_call _ d = d"

definition run_calls :: "call list \<Rightarrow> device \<Rightarrow> device" where
  "run_calls cs d = fold apply_call cs d"

text \<open>The device after power-up: nothing held, every LED off, every label empty.\<close>

definition idle :: device where
  "idle = \<lparr>keys = {}, media = {}, buttons = 0, tone = None,
            pixels = [0, 0, 0, 0, 0, 0, 0, 0, 0, 0, 0, 0],
            leds = [0, 0, 0, 0, 0, 0, 0, 0, 0, 0, 0, 0],
            labels = [[], [], [], [], [], [], [], [], [], [], [], []],
            title = [], root_group = Menu\<rparr>"

section \<open>Applications\<close>

text \<open>
  A macro is the tuple (colour, label, sequence) of a macro file; \<open>App\<close> is the class of
  that name. The sequence is the list of the items that \<open>for item in sequence\<close> visits
  (for a string, as in some macro files, its characters as strings of length one).
  Loading the files is outside the model: the list \<open>apps\<close> is given.
\<close>

type_synonym macro = "int \<times> string \<times> pyval list"

record App =
  index :: nat
  name :: string
  macros :: "macro list"
  icon :: string

section \<open>Inputs\<close>

text \<open>
  What the hardware returns during one pass of the main loop (or during start-up):
  the encoder position read at the top of the loop, the position read on entry to
  \<open>display_image\<close>, the positions read after each frame of the animation (by frame
  number), the reading of \<open>time.monotonic()\<close> taken before the animation (\<open>t0\<close>), the
  readings that the condition of its \<open>while\<close> loop gets, in order, the debounced
  encoder switch, and the result of \<open>macropad.keys.events.get()\<close>. A read that the pass
  does not perform is ignored. \<open>images\<close> gives the height of the bitmap stored under a
  path, if the file exists.
\<close>

record inputs =
  encoder :: int
  icon_enc :: int
  icon_polls :: "nat \<Rightarrow> int"
  icon_t0 :: real
  icon_clock :: "real list"
  encoder_switch :: bool
  event :: "(nat \<times> bool) option"

type_synonym images = "string \<Rightarrow> nat option"

section \<open>Image animation\<close>

definition IMAGES_FOLDER :: string where
  "IMAGES_FOLDER = ''/images''"

definition DEFAULT_IMAGE :: string where
  "DEFAULT_IMAGE = IMAGES_FOLDER @ ''/default_animation.bmp''"

definition ICON_DURATION :: real where
  "ICON_DURATION = 1"

definition FRAME_DURATION :: real where
  "FRAME_DURATION = 0.05"

definition ICON_HEIGHT :: nat where
  "ICON_HEIGHT = 64"

definition frame_count :: "nat \<Rightarrow> nat" where
  "frame_count height =
     (let height_count = height div ICON_HEIGHT
      in if 1 < height_count then height_count else 1)"

text \<open>
  The \<open>for\<close> loop over the frames: \<open>k\<close> counts the encoder reads made so far. The
  result is the calls, the flag \<open>loop\<close>, and the counter.
\<close>

fun show_frames :: "nat list \<Rightarrow> (nat \<Rightarrow> int) \<Rightarrow> int \<Rightarrow> nat \<Rightarrow> call list \<times> bool \<times> nat" where
  "show_frames [] polls enc_position k = ([], True, k)"
| "show_frames (current_frame # rest) polls enc_position k =
     (if polls k \<noteq> enc_position
      then ([SpriteFrame current_frame, DisplayRefresh], False, Suc k)
      else (case show_frames rest polls enc_position (Suc k) of
              (cs, r) \<Rightarrow> (SpriteFrame current_frame # DisplayRefresh # Sleep FRAME_DURATION # cs, r)))"

text \<open>
  The \<open>while\<close> loop around it. How long it runs is decided by the clock, which is an
  input: each test of \<open>time.monotonic() < t0 + ICON_DURATION\<close> takes the next reading
  of the list. A presentation that comes to its end has taken finitely many readings,
  the last of them past the deadline if it was not interrupted; the list of a pass
  holds them, and a list that is used up ends the loop like such a reading. The sum
  \<open>t0 + ICON_DURATION\<close> stands for the float that the code computes; only the outcome
  of the comparison is used.
\<close>

fun animate :: "nat \<Rightarrow> real list \<Rightarrow> real \<Rightarrow> (nat \<Rightarrow> int) \<Rightarrow> int \<Rightarrow> nat \<Rightarrow> call list \<times> bool" where
  "animate frames [] t0 polls enc_position k = ([], True)"
| "animate frames (now # later) t0 polls enc_position k =
     (if now < t0 + ICON_DURATION then
        (case show_frames [0..<frames] polls enc_position k of
           (cs, False, k') \<Rightarrow> (cs, False)
         | (cs, True, k') \<Rightarrow>
             (case animate frames later t0 polls enc_position k' of
                (cs', r) \<Rightarrow> (cs @ cs', r)))
      else ([], True))"

text \<open>
  The globals \<open>current_image_path\<close> and \<open>image_file\<close> are part of the controller state
  below, with the variables of the main loop that are read again (\<open>whichframe\<close>,
  \<open>hide_image_time\<close> and \<open>firsttime\<close> are only written). \<open>os.stat\<close> fails on a missing
  file, and so does \<open>open\<close>; \<open>displayio.TileGrid\<close> refuses a tile height that does not
  divide the height of the bitmap, which is why all icons are a multiple of 64 high.
\<close>

record controller =
  app_index :: nat
  last_position :: "int option"
  last_encoder_switch :: bool
  current_image_path :: string
  image_file :: "string option"

definition image_file_path :: "images \<Rightarrow> string \<Rightarrow> string" where
  "image_file_path images icon_file =
     (if images (IMAGES_FOLDER @ ''/'' @ icon_file) = None then DEFAULT_IMAGE
      else IMAGES_FOLDER @ ''/'' @ icon_file)"

definition display_image ::
    "images \<Rightarrow> inputs \<Rightarrow> string \<Rightarrow> controller \<Rightarrow> call list \<times> controller \<times> (error + bool)" where
  "display_image images inp icon_file st =
     (let enc_position = icon_enc inp;
          path = image_file_path images icon_file
      in if current_image_path st \<noteq> path \<and> images path = None
         then ([], st\<lparr>current_image_path := path, image_file := None\<rparr>, Inl OSError)
         else
           (let st' = (if current_image_path st \<noteq> path
                       then st\<lparr>current_image_path := path, image_file := Some path\<rparr>
                       else st)
            in case images path of
                 None \<Rightarrow> ([], st', Inl OSError)
               | Some height \<Rightarrow>
                   if height mod ICON_HEIGHT \<noteq> 0 then ([], st', Inl ValueError)
                   else
                     (case animate (frame_count height) (icon_clock inp) (icon_t0 inp)
                             (icon_polls inp) enc_position 0 of
                        (cs, loop) \<Rightarrow> (DisplayShowIcon path # cs, st', Inr loop))))"

section \<open>Class App\<close>

definition switch ::
    "images \<Rightarrow> inputs \<Rightarrow> App \<Rightarrow> controller \<Rightarrow> call list \<times> controller \<times> (error + bool)" where
  "switch images inp self st =
     (let stop = [KeyReleaseAll, MediaRelease, MouseReleaseAll, ToneStop];
          colours = map (\<lambda>i. PixelSet i (if i < length (macros self) then fst (macros self ! i) else 0))
                        [0..<12] @ [PixelsShow];
          menu = map (\<lambda>i. LabelSet i (if i < length (macros self) then fst (snd (macros self ! i)) else []))
                     [0..<12] @ [TitleSet (name self), DisplayShowMenu, DisplayRefresh]
      in case display_image images inp (icon self) st of
           (cs, st', Inl e) \<Rightarrow> (stop @ colours @ cs, st', Inl e)
         | (cs, st', Inr result) \<Rightarrow>
             if \<not> result then (stop @ colours @ cs, st', Inr False)
             else (stop @ colours @ cs @ menu, st', Inr True))"

section \<open>Main loop\<close>

text \<open>\<open>position % len(apps)\<close>: Python's remainder takes the sign of the divisor.\<close>

definition new_index :: "int \<Rightarrow> nat \<Rightarrow> error + nat" where
  "new_index position profileCount =
     (if profileCount = 0 then Inl ZeroDivisionError
      else Inr (nat (position mod int profileCount)))"

text \<open>
  The part of the loop body below the comment "If code reaches here": the macro
  \<open>key_number\<close> exists, and \<open>pressed\<close> tells the press branch from the release branch.
\<close>

definition key_edge :: "App \<Rightarrow> nat \<Rightarrow> bool \<Rightarrow> outcome" where
  "key_edge app key_number pressed =
     (let sequence = snd (snd (macros app ! key_number))
      in if pressed
         then then_do (calls (if key_number < 12
                              then [PixelSet key_number 0xFFFFFF, PixelsShow] else []))
                      (play sequence)
         else then_do (release sequence)
                      (calls (if key_number < 12
                              then [PixelSet key_number (fst (macros app ! key_number)), PixelsShow]
                              else [])))"

text \<open>From "Handle encoder button" to the end of the loop body.\<close>

definition handle_keys :: "App list \<Rightarrow> inputs \<Rightarrow> controller \<Rightarrow> call list \<times> controller \<times> error option" where
  "handle_keys apps inp st =
     (let app = apps ! app_index st
      in if encoder_switch inp \<noteq> last_encoder_switch st then
           (let st' = st\<lparr>last_encoder_switch := encoder_switch inp\<rparr>
            in if length (macros app) < 13 then ([], st', None)
               else (case key_edge app 12 (encoder_switch inp) of (cs, r) \<Rightarrow> (cs, st', r)))
         else
           (case event inp of
              None \<Rightarrow> ([], st, None)
            | Some (key_number, pressed) \<Rightarrow>
                if length (macros app) \<le> key_number then ([], st, None)
                else (case key_edge app key_number pressed of (cs, r) \<Rightarrow> (cs, st, r))))"

text \<open>One pass of \<open>while True\<close>.\<close>

definition tick :: "images \<Rightarrow> App list \<Rightarrow> inputs \<Rightarrow> controller \<Rightarrow> call list \<times> controller \<times> error option" where
  "tick images apps inp st =
     (if Some (encoder inp) \<noteq> last_position st then
        (case new_index (encoder inp) (length apps) of
           Inl e \<Rightarrow> ([], st, Some e)
         | Inr i \<Rightarrow>
             (case switch images inp (apps ! i) (st\<lparr>app_index := i\<rparr>) of
                (cs, st', Inl e) \<Rightarrow> (cs, st', Some e)
              | (cs, st', Inr result) \<Rightarrow>
                  (let st'' = st'\<lparr>last_position := Some (encoder inp)\<rparr>
                   in if \<not> result then (cs, st'', None)
                      else (case handle_keys apps inp st'' of
                              (cs', r) \<Rightarrow> (cs @ cs', r)))))
      else handle_keys apps inp st)"

section \<open>The program\<close>

text \<open>
  The program is in its main loop, in the endless loop \<open>while True: pass\<close> that follows
  the message for an empty list of applications, or ended by an exception.
\<close>

datatype machine = Running controller | Halted | Crashed error

definition startup :: "images \<Rightarrow> inputs \<Rightarrow> App list \<Rightarrow> call list \<times> machine" where
  "startup images inp apps =
     (if apps = [] then ([DisplayShowMenu, TitleSet ''NO MACRO FILES FOUND'', DisplayRefresh], Halted)
      else
        (let st = \<lparr>app_index = 0, last_position = None,
                   last_encoder_switch = encoder_switch inp,
                   current_image_path = [], image_file = None\<rparr>
         in case switch images inp (apps ! 0) st of
              (cs, st', Inl e) \<Rightarrow> (DisplayShowMenu # cs, Crashed e)
            | (cs, st', Inr result) \<Rightarrow> (DisplayShowMenu # cs, Running st')))"

text \<open>One pass of whichever loop the program is in.\<close>

fun step :: "images \<Rightarrow> App list \<Rightarrow> inputs \<Rightarrow> machine \<Rightarrow> call list \<times> machine" where
  "step images apps inp (Running st) =
     (case tick images apps inp st of
        (cs, st', None) \<Rightarrow> (cs, Running st')
      | (cs, st', Some e) \<Rightarrow> (cs, Crashed e))"
| "step images apps inp Halted = ([], Halted)"
| "step images apps inp (Crashed e) = ([], Crashed e)"

fun run :: "images \<Rightarrow> App list \<Rightarrow> inputs list \<Rightarrow> machine \<Rightarrow> call list \<times> machine" where
  "run images apps [] m = ([], m)"
| "run images apps (inp # rest) m =
     (case step images apps inp m of
        (cs, m') \<Rightarrow> (case run images apps rest m' of (cs', m'') \<Rightarrow> (cs @ cs', m'')))"

definition program :: "images \<Rightarrow> App list \<Rightarrow> inputs \<Rightarrow> inputs list \<Rightarrow> call list \<times> machine" where
  "program images apps inp0 inps =
     (case startup images inp0 apps of
        (cs, m) \<Rightarrow> (case run images apps inps m of (cs', m') \<Rightarrow> (cs @ cs', m')))"

section \<open>Kinds of calls\<close>

text \<open>The calls that only take something back, and the calls of the animation.\<close>

fun releasing :: "call \<Rightarrow> bool" where
  "releasing (KeyRelease k) = True"
| "releasing (MouseRelease b) = True"
| "releasing ToneStop = True"
| "releasing MediaRelease = True"
| "releasing _ = False"

fun presenting :: "call \<Rightarrow> bool" where
  "presenting (DisplayShowIcon p) = True"
| "presenting (SpriteFrame f) = True"
| "presenting DisplayRefresh = True"
| "presenting (Sleep s) = True"
| "presenting _ = False"

section \<open>Example applications and inputs\<close>

text \<open>One key that presses the left mouse button and sounds a tone of 440 Hz.\<close>

definition beep_app :: App where
  "beep_app = \<lparr>index = 0, name = ''Beep'',
      macros = [(0x101010, ''Beep'', [PDict [(''buttons'', PInt 1), (''tone'', PInt 440)]])],
      icon = ''0.bmp''\<rparr>"

text \<open>One red key that copies, as in scenario A of the specification.\<close>

definition copy_app :: App where
  "copy_app = \<lparr>index = 0, name = ''Edit'',
      macros = [(0xFF0000, ''Copy'', [PInt 224, PInt 6, PInt (- 6), PInt (- 224)])],
      icon = ''0.bmp''\<rparr>"

text \<open>The only image on the device is the default one, 64 pixels high.\<close>

definition default_only :: images where
  "default_only path = (if path = DEFAULT_IMAGE then Some 64 else None)"

text \<open>The main loop after a completed switch to application 0 at encoder position 0.\<close>

definition settled :: controller where
  "settled = \<lparr>app_index = 0, last_position = Some 0, last_encoder_switch = False,
               current_image_path = DEFAULT_IMAGE, image_file = Some DEFAULT_IMAGE\<rparr>"

text \<open>
  A pass in which the encoder is found at position 1, and has moved on to position 2
  when the first frame of the icon is on the display; the clock reads 10 seconds before
  the animation and still does when the loop is entered.
\<close>

definition turned :: inputs where
  "turned = \<lparr>encoder = 1, icon_enc = 1, icon_polls = (\<lambda>k. 2), icon_t0 = 10,
              icon_clock = [10], encoder_switch = False, event = None\<rparr>"

text \<open>
  Passes with the encoder at rest at position 0: one in which the encoder switch is found
  pressed, one in which key 5 is reported pressed.
\<close>

definition clicked :: inputs where
  "clicked = \<lparr>encoder = 0, icon_enc = 0, icon_polls = (\<lambda>k. 0), icon_t0 = 0,
               icon_clock = [], encoder_switch = True, event = None\<rparr>"

definition stray_key :: inputs where
  "stray_key = \<lparr>encoder = 0, icon_enc = 0, icon_polls = (\<lambda>k. 0), icon_t0 = 0,
                 icon_clock = [], encoder_switch = False, event = Some (5, True)\<rparr>"

section \<open>Basic facts on outcomes\<close>

lemma then_do_None [simp]: "then_do (cs, None) r = (cs @ fst r, snd r)"
  by (simp add: then_do_def)

lemma then_do_Some [simp]: "then_do (cs, Some e) r = (cs, Some e)"
  by (simp add: then_do_def)

lemmas outcome_defs = calls_def raise_def

lemma then_do_assoc: "then_do (then_do a b) c = then_do a (then_do b c)"
  by (cases a; cases b; cases c) (auto simp: then_do_def split: option.splits)

lemma play_append: "play (xs @ ys) = then_do (play xs) (play ys)"
  by (induction xs) (simp_all add: then_do_assoc calls_def)

lemma play_codes_append: "play_codes (xs @ ys) = play_codes xs @ play_codes ys"
  by (induction xs) simp_all

lemma run_calls_simps [simp]:
  "run_calls [] d = d"
  "run_calls (c # cs) d = run_calls cs (apply_call c d)"
  "run_calls (cs @ cs') d = run_calls cs' (run_calls cs d)"
  by (simp_all add: run_calls_def)

section \<open>Playing a list of consumer control codes\<close>

text \<open>
  C5 (as the code behaves): playing the one-item sequence \<open>[[code1, d, code2]]\<close> with
  integer codes and a float delay \<open>d\<close> makes exactly the calls media-release, media-press
  \<open>code1\<close>, sleep \<open>d\<close>, media-release, media-press \<open>code2\<close>, and ends normally. Every
  press, the first one too, comes right after a release.
\<close>

theorem play_media_codes:
  "play [PList [PInt code1, PFloat d, PInt code2]] =
     ([MediaRelease, MediaPress code1, Sleep d, MediaRelease, MediaPress code2], None)"
  by (simp add: outcome_defs)

text \<open>
  C5 (as the specification states it) fails: the four calls media-press, delay,
  media-release, media-press are not what the code produces; it starts with a release.
\<close>

theorem play_media_codes_counterexample:
  "play [PList [PInt 205, PFloat 0.1, PInt 181]] \<noteq>
     ([MediaPress 205, Sleep 0.1, MediaRelease, MediaPress 181], None)"
  by (simp add: outcome_defs)

section \<open>Consumer control codes are released before each press\<close>

lemma play_code_guard:
  "i < length (play_code x) \<Longrightarrow> play_code x ! i = MediaPress c \<Longrightarrow> i = 1 \<and> play_code x ! 0 = MediaRelease"
  by (cases x) (auto simp: less_Suc_eq nth_Cons')

lemma play_codes_guard:
  "i < length (play_codes codes) \<Longrightarrow> play_codes codes ! i = MediaPress c \<Longrightarrow>
     0 < i \<and> play_codes codes ! (i - 1) = MediaRelease"
proof (induction codes arbitrary: i)
  case Nil
  then show ?case by simp
next
  case (Cons x xs)
  let ?l = "length (play_code x)"
  show ?case
  proof (cases "i < ?l")
    case True
    with Cons.prems have "i = 1 \<and> play_code x ! 0 = MediaRelease"
      using play_code_guard [of i x c] by (simp add: nth_append)
    with True show ?thesis by (auto simp: nth_append)
  next
    case False
    with Cons.prems have a: "i - ?l < length (play_codes xs)" and b: "play_codes xs ! (i - ?l) = MediaPress c"
      by (auto simp: nth_append)
    from Cons.IH [OF a b] have "0 < i - ?l" and "play_codes xs ! (i - ?l - 1) = MediaRelease"
      by simp_all
    moreover have "i - ?l - 1 = i - 1 - ?l" by simp
    moreover have "\<not> i - 1 < ?l" using \<open>0 < i - ?l\<close> by arith
    ultimately show ?thesis by (simp add: nth_append)
  qed
qed

lemma play_code_media:
  "media d \<subseteq> {c0} \<Longrightarrow> \<exists>c. media (run_calls (take n (play_code x)) d) \<subseteq> {c}"
  by (cases x; cases n) (auto simp: take_Cons')

lemma play_codes_media:
  "media d \<subseteq> {c0} \<Longrightarrow> \<exists>c. media (run_calls (take n (play_codes codes)) d) \<subseteq> {c}"
proof (induction codes arbitrary: d c0 n)
  case Nil
  then show ?case by auto
next
  case (Cons x xs)
  show ?case
  proof (cases "n \<le> length (play_code x)")
    case True
    then show ?thesis using play_code_media [OF Cons.prems, of n x] by simp
  next
    case False
    then have "take n (play_code x) = play_code x" by simp
    from play_code_media [OF Cons.prems, of n x] obtain c1 where
      "media (run_calls (play_code x) d) \<subseteq> {c1}"
      using \<open>take n (play_code x) = play_code x\<close> by auto
    from Cons.IH [OF this] show ?thesis using False by simp
  qed
qed

lemma play_list_item: "play [PList codes] = (play_codes codes, None)"
  by (simp add: outcome_defs)

text \<open>
  C10: while a list item is played, every media-press comes right after a media-release,
  the first one included, the playback ends normally, and if at most one consumer control
  code was asserted when it began, at most one is asserted after any number of its calls.
\<close>

theorem media_release_before_every_press:
  assumes "play [PList codes] = (cs, r)"
  shows "r = None
       \<and> (\<forall>i c. i < length cs \<and> cs ! i = MediaPress c \<longrightarrow> 0 < i \<and> cs ! (i - 1) = MediaRelease)
       \<and> (\<forall>n c0. media d \<subseteq> {c0} \<longrightarrow> (\<exists>c'. media (run_calls (take n cs) d) \<subseteq> {c'}))"
proof -
  from assms have cs: "cs = play_codes codes" and r: "r = None"
    unfolding play_list_item by simp_all
  show ?thesis
    unfolding cs r using play_codes_guard play_codes_media by blast
qed

theorem media_release_before_every_press_witness:
  "play [PList [PInt 205, PFloat 0.1, PInt 181]] =
      ([MediaRelease, MediaPress 205, Sleep 0.1, MediaRelease, MediaPress 181], None)
   \<and> [MediaRelease, MediaPress 205, Sleep 0.1, MediaRelease, MediaPress 181] ! 3 = MediaRelease
   \<and> media idle \<subseteq> {0}
   \<and> (\<exists>c'. media (run_calls (take 5 [MediaRelease, MediaPress 205, Sleep 0.1, MediaRelease, MediaPress 181]) idle) \<subseteq> {c'})"
proof -
  have p: "play [PList [PInt 205, PFloat 0.1, PInt 181]] =
      ([MediaRelease, MediaPress 205, Sleep 0.1, MediaRelease, MediaPress 181], None)"
    by (simp add: outcome_defs)
  have m: "media idle \<subseteq> {0}" by (simp add: idle_def)
  from media_release_before_every_press [OF p, of idle] m p show ?thesis
    by (auto simp: idle_def)
qed

section \<open>Items the press branch does not know\<close>

lemma play_item_unrecognized: "\<not> recognized item \<Longrightarrow> play_item item = ([], None)"
  by (cases item) (simp_all add: outcome_defs)

lemma play_bad_buttons:
  "map_of d ''buttons'' = Some b \<Longrightarrow> py_ge0 b = Inl e \<Longrightarrow> play (PDict d # after) = ([], Some e)"
  by (simp add: play_buttons_def outcome_defs)

text \<open>
  C8 (as the code behaves): an item of none of the classes the press branch tests for
  makes no call, and the sequence is played as if the item were not there. A dictionary
  whose \<open>buttons\<close> entry cannot be compared with zero is not skipped: the items before it
  are played, the comparison raises, and nothing after it is played.
\<close>

theorem unrecognized_item_skipped:
  "(\<not> recognized item \<longrightarrow>
      play_item item = ([], None) \<and> play (before @ item # after) = play (before @ after))
   \<and> (map_of d ''buttons'' = Some b \<and> py_ge0 b = Inl e \<longrightarrow>
      play (before @ PDict d # after) = then_do (play before) ([], Some e))"
proof (intro conjI impI)
  assume "\<not> recognized item"
  then show "play_item item = ([], None)"
    by (rule play_item_unrecognized)
  then show "play (before @ item # after) = play (before @ after)"
    by (simp add: play_append)
next
  assume "map_of d ''buttons'' = Some b \<and> py_ge0 b = Inl e"
  then have "play (PDict d # after) = ([], Some e)"
    by (simp only: play_bad_buttons)
  then show "play (before @ PDict d # after) = then_do (play before) ([], Some e)"
    by (simp only: play_append)
qed

theorem unrecognized_item_skipped_witness:
  "\<not> recognized PNone \<and> play_item PNone = ([], None)
   \<and> play ([PInt 4] @ PNone # [PInt 5]) = play ([PInt 4] @ [PInt 5])
   \<and> map_of [(''buttons'', PStr ''left'')] ''buttons'' = Some (PStr ''left'')
   \<and> py_ge0 (PStr ''left'') = Inl TypeError
   \<and> play ([PInt 4] @ PDict [(''buttons'', PStr ''left'')] # [PInt 5])
       = ([KeyPress 4], Some TypeError)"
  using unrecognized_item_skipped [of PNone "[PInt 4]" "[PInt 5]" "[(''buttons'', PStr ''left'')]"
          "PStr ''left''" TypeError]
  by (simp add: outcome_defs play_buttons_def)

text \<open>
  C8 (as the specification states it) fails for a malformed item: a dictionary whose
  \<open>buttons\<close> entry is a string raises \<open>TypeError\<close> in the comparison with zero,
  and the key press that follows in the sequence is never made.
\<close>

theorem malformed_item_counterexample:
  "play [PDict [(''buttons'', PStr ''left'')], PInt 4] = ([], Some TypeError)
   \<and> play [PInt 4] = ([KeyPress 4], None)"
  by (simp add: outcome_defs play_buttons_def)

section \<open>No application loaded\<close>

lemma run_Halted: "run images apps inps Halted = ([], Halted)"
  by (induction inps) simp_all

text \<open>
  C9: with no application loaded, the program shows the message NO MACRO FILES FOUND and
  stays in its halt loop: whatever the inputs and however many passes are made, these
  are all the calls there ever are, and none of them is on the output sink.
\<close>

theorem no_profiles_halt:
  "program images [] inp0 inps =
     ([DisplayShowMenu, TitleSet ''NO MACRO FILES FOUND'', DisplayRefresh], Halted)"
  by (simp add: program_def startup_def run_Halted)

section \<open>The index of the application after a turn of the encoder\<close>

lemma display_image_app_index:
  "display_image images inp icon_file st = (cs, st', r) \<Longrightarrow>
     app_index st' = app_index st \<and> last_position st' = last_position st
     \<and> last_encoder_switch st' = last_encoder_switch st"
  by (auto simp: display_image_def Let_def split: if_splits option.splits prod.splits)

lemma switch_app_index:
  "switch images inp self st = (cs, st', r) \<Longrightarrow>
     app_index st' = app_index st \<and> last_position st' = last_position st
     \<and> last_encoder_switch st' = last_encoder_switch st"
  by (auto simp: switch_def Let_def split: if_splits sum.splits prod.splits
           dest!: display_image_app_index)

lemma handle_keys_app_index:
  "handle_keys apps inp st = (cs, st', r) \<Longrightarrow>
     app_index st' = app_index st \<and> last_position st' = last_position st"
  by (auto simp: handle_keys_def Let_def split: if_splits option.splits prod.splits)

lemma tick_app_index:
  assumes "apps \<noteq> []" and "Some (encoder inp) \<noteq> last_position st"
  shows "app_index (fst (snd (tick images apps inp st))) = nat (encoder inp mod int (length apps))"
  using assms
  by (auto simp: tick_def new_index_def Let_def split: sum.splits prod.splits
           dest!: switch_app_index handle_keys_app_index)

text \<open>
  C7: for every integer encoder position and every number of loaded applications of at
  least one, \<open>position % len(apps)\<close> is defined and is an index below that number,
  and it is the \<open>app_index\<close> the main loop holds after a pass in which the encoder
  has moved. Position 3 with two applications gives index 1.
\<close>

theorem profile_index_in_bounds:
  assumes "1 \<le> profileCount"
  shows "\<exists>i. new_index position profileCount = Inr i \<and> i < profileCount
           \<and> int i = position mod int profileCount
           \<and> (\<forall>images apps inp st.
                length apps = profileCount \<and> encoder inp = position
                \<and> Some position \<noteq> last_position st
                \<longrightarrow> app_index (fst (snd (tick images apps inp st))) = i)"
proof -
  let ?i = "nat (position mod int profileCount)"
  have "new_index position profileCount = Inr ?i"
    using assms by (simp add: new_index_def)
  moreover have "int ?i = position mod int profileCount"
    using assms by simp
  moreover have "?i < profileCount"
    using assms by (simp add: nat_less_iff)
  moreover have "\<forall>images apps inp st.
                length apps = profileCount \<and> encoder inp = position
                \<and> Some position \<noteq> last_position st
                \<longrightarrow> app_index (fst (snd (tick images apps inp st))) = ?i"
  proof (intro allI impI)
    fix images :: images and apps :: "App list" and inp :: inputs and st :: controller
    assume a: "length apps = profileCount \<and> encoder inp = position
                 \<and> Some position \<noteq> last_position st"
    with assms have "apps \<noteq> []" by auto
    with a show "app_index (fst (snd (tick images apps inp st))) = ?i"
      using tick_app_index [of apps inp st images] by simp
  qed
  ultimately show ?thesis by blast
qed

theorem profile_index_in_bounds_witness:
  "(1::nat) \<le> 2 \<and> new_index 3 2 = Inr 1"
proof -
  have h: "(1::nat) \<le> 2" by simp
  from profile_index_in_bounds [OF h, of 3] obtain i where
    "new_index 3 2 = Inr i" and "int i = 3 mod int 2" by blast
  then show ?thesis by simp
qed

section \<open>Releasing twice\<close>

lemma fst_then_do: "fst (then_do a b) = fst a @ (if snd a = None then fst b else [])"
  by (cases a) (auto simp: then_do_def split: option.splits)

lemma releasing_release_item: "list_all releasing (fst (release_item item))"
  by (cases item) (auto simp: outcome_defs split: option.splits sum.splits bool.splits)

lemma releasing_release_items: "list_all releasing (fst (release_items S))"
  by (induction S) (simp_all add: outcome_defs fst_then_do releasing_release_item)

lemma releasing_release: "list_all releasing (fst (release S))"
  by (simp add: release_def fst_then_do releasing_release_items outcome_defs)

lemma mouse_release_cases:
  "apply_call (MouseRelease v) d = (case v of PInt b \<Rightarrow> d\<lparr>buttons := buttons d AND NOT b\<rparr> | _ \<Rightarrow> d)"
  by (cases v) simp_all

lemma releasing_idem:
  "releasing c \<Longrightarrow> apply_call c (apply_call c d) = apply_call c d"
  by (cases c) (auto simp: mouse_release_cases split: pyval.splits)

lemma Diff_singleton_commute: "A - {a} - {b} = A - {b} - {a}"
  by blast

lemma releasing_commute:
  "releasing c \<Longrightarrow> releasing c' \<Longrightarrow>
     apply_call c (apply_call c' d) = apply_call c' (apply_call c d)"
  by (cases c; cases c')
     (auto simp: mouse_release_cases and.assoc and.left_commute and.commute
                 Diff_singleton_commute split: pyval.splits)

lemma releasing_leds:
  "releasing c \<Longrightarrow> apply_call c (apply_call (PixelSet i v) d) = apply_call (PixelSet i v) (apply_call c d)"
  "releasing c \<Longrightarrow> apply_call c (apply_call PixelsShow d) = apply_call PixelsShow (apply_call c d)"
  by (cases c; auto simp: mouse_release_cases split: pyval.splits)+

lemma releasing_run_commute:
  "releasing c \<Longrightarrow> list_all releasing cs \<Longrightarrow>
     apply_call c (run_calls cs d) = run_calls cs (apply_call c d)"
  by (induction cs arbitrary: d) (simp_all add: releasing_commute)

lemma releasing_run_idem:
  "list_all releasing cs \<Longrightarrow> run_calls cs (run_calls cs d) = run_calls cs d"
proof (induction cs arbitrary: d)
  case Nil
  then show ?case by simp
next
  case (Cons c cs)
  then have c: "releasing c" and cs: "list_all releasing cs" by simp_all
  have "run_calls (c # cs) (run_calls (c # cs) d)
          = run_calls cs (apply_call c (run_calls cs (apply_call c d)))" by simp
  also have "\<dots> = run_calls cs (run_calls cs (apply_call c (apply_call c d)))"
    by (simp add: releasing_run_commute [OF c cs])
  also have "\<dots> = run_calls cs (run_calls cs (apply_call c d))"
    by (simp add: releasing_idem [OF c])
  also have "\<dots> = run_calls cs (apply_call c d)"
    by (rule Cons.IH [OF cs])
  finally show ?case by simp
qed

lemma run_commute_call:
  assumes "\<And>c' d. releasing c' \<Longrightarrow> apply_call c' (apply_call x d) = apply_call x (apply_call c' d)"
  shows "list_all releasing cs \<Longrightarrow> run_calls cs (apply_call x d) = apply_call x (run_calls cs d)"
  by (induction cs arbitrary: d) (simp_all add: assms)

lemma leds_run_commute:
  assumes "list_all releasing cs"
  shows "run_calls cs (run_calls [PixelSet i v, PixelsShow] d)
           = run_calls [PixelSet i v, PixelsShow] (run_calls cs d)"
proof -
  have "run_calls cs (run_calls [PixelSet i v, PixelsShow] d)
          = run_calls cs (apply_call PixelsShow (apply_call (PixelSet i v) d))"
    by (simp only: run_calls_simps)
  also have "\<dots> = apply_call PixelsShow (run_calls cs (apply_call (PixelSet i v) d))"
    by (rule run_commute_call [OF releasing_leds(2) assms])
  also have "\<dots> = apply_call PixelsShow (apply_call (PixelSet i v) (run_calls cs d))"
    by (simp only: run_commute_call [OF releasing_leds(1) assms])
  finally show ?thesis by (simp only: run_calls_simps)
qed

lemma leds_idem:
  "run_calls [PixelSet i v, PixelsShow] (run_calls [PixelSet i v, PixelsShow] d)
     = run_calls [PixelSet i v, PixelsShow] d"
  by simp

lemma release_edge_calls:
  "\<exists>R L. fst (key_edge app key_number False) = R @ L \<and> list_all releasing R
     \<and> (L = [] \<or> (\<exists>i v. L = [PixelSet i v, PixelsShow]))"
proof -
  let ?S = "snd (snd (macros app ! key_number))"
  let ?L = "if snd (release ?S) = None \<and> key_number < 12
            then [PixelSet key_number (fst (macros app ! key_number)), PixelsShow] else []"
  have "fst (key_edge app key_number False) = fst (release ?S) @ ?L"
    by (simp add: key_edge_def Let_def fst_then_do outcome_defs)
  moreover have "?L = [] \<or> (\<exists>i v. ?L = [PixelSet i v, PixelsShow])" by simp
  ultimately show ?thesis using releasing_release [of ?S] by blast
qed

text \<open>
  C3: for every sequence, running the release loop with its closing media release twice
  leaves the device (keys, mouse buttons, consumer control codes, tone, LEDs and all the
  rest) as running it once does; the same holds for the whole release branch of a key,
  which also restores the colour of the key.
\<close>

theorem release_idempotent:
  "run_calls (fst (release S)) (run_calls (fst (release S)) d) = run_calls (fst (release S)) d
   \<and> run_calls (fst (key_edge app key_number False)) (run_calls (fst (key_edge app key_number False)) d)
       = run_calls (fst (key_edge app key_number False)) d"
proof
  show "run_calls (fst (release S)) (run_calls (fst (release S)) d) = run_calls (fst (release S)) d"
    by (rule releasing_run_idem [OF releasing_release])
next
  obtain R L where T: "fst (key_edge app key_number False) = R @ L" and R: "list_all releasing R"
    and L: "L = [] \<or> (\<exists>i v. L = [PixelSet i v, PixelsShow])"
    using release_edge_calls by blast
  from L show "run_calls (fst (key_edge app key_number False)) (run_calls (fst (key_edge app key_number False)) d)
       = run_calls (fst (key_edge app key_number False)) d"
  proof
    assume "L = []"
    with T R show ?thesis by (simp add: releasing_run_idem)
  next
    assume "\<exists>i v. L = [PixelSet i v, PixelsShow]"
    then obtain i v where L': "L = [PixelSet i v, PixelsShow]" by blast
    have "run_calls (R @ L) (run_calls (R @ L) d) = run_calls L (run_calls R (run_calls L (run_calls R d)))"
      by simp
    also have "\<dots> = run_calls L (run_calls L (run_calls R (run_calls R d)))"
      unfolding L' by (simp only: leds_run_commute [OF R])
    also have "\<dots> = run_calls L (run_calls L (run_calls R d))"
      by (simp only: releasing_run_idem [OF R])
    also have "\<dots> = run_calls L (run_calls R d)"
      unfolding L' by (rule leds_idem)
    finally show ?thesis unfolding T by simp
  qed
qed

section \<open>What the release branch takes back\<close>

text \<open>
  When the release loop of a sequence ends normally, every key and every mouse button
  that playing any prefix of the sequence has pressed is released again, and no consumer
  control code stays pressed.
\<close>

lemma play_codes_no_KeyPress: "KeyPress k \<notin> set (play_codes codes)"
proof (induction codes)
  case Nil
  show ?case by simp
next
  case (Cons c cs)
  then show ?case by (cases c) simp_all
qed

lemma play_item_KeyPress:
  assumes "KeyPress k \<in> set (fst (play_item item))"
  shows "item = PInt k \<and> 0 \<le> k"
proof (cases item)
  case (PList codes)
  with assms play_codes_no_KeyPress [of k codes] show ?thesis
    by (simp add: outcome_defs)
next
  case (PDict d)
  with assms show ?thesis
    by (auto simp: outcome_defs play_buttons_def play_move_def play_tone_def then_do_def
             split: option.splits sum.splits bool.splits if_splits)
qed (use assms in \<open>auto simp: outcome_defs split: if_splits\<close>)

lemma fst_then_do_subset: "set (fst (then_do a b)) \<subseteq> set (fst a) \<union> set (fst b)"
  by (cases a) (auto simp: then_do_def split: option.splits)

lemma play_KeyPress:
  "KeyPress k \<in> set (fst (play P)) \<Longrightarrow> PInt k \<in> set P \<and> 0 \<le> k"
proof (induction P)
  case Nil
  then show ?case by (simp add: outcome_defs)
next
  case (Cons item P)
  from Cons.prems fst_then_do_subset [of "play_item item" "play P"]
  have "KeyPress k \<in> set (fst (play_item item)) \<or> KeyPress k \<in> set (fst (play P))"
    by auto
  then show ?case using Cons.IH play_item_KeyPress [of k item] by auto
qed

lemma release_items_KeyRelease:
  "release_items S = (cs, None) \<Longrightarrow> PInt k \<in> set S \<Longrightarrow> 0 \<le> k \<Longrightarrow> KeyRelease k \<in> set cs"
proof (induction S arbitrary: cs)
  case Nil
  then show ?case by simp
next
  case (Cons item S)
  obtain c1 r1 where i: "release_item item = (c1, r1)" by (cases "release_item item")
  obtain c2 r2 where s: "release_items S = (c2, r2)" by (cases "release_items S")
  from Cons.prems(1) i s have r1: "r1 = None" and r2: "r2 = None" and cs: "cs = c1 @ c2"
    by (auto simp: then_do_def split: option.splits)
  show ?case
  proof (cases "item = PInt k")
    case True
    with i Cons.prems(3) cs show ?thesis by (auto simp: outcome_defs)
  next
    case False
    with Cons.prems(2) have "PInt k \<in> set S" by simp
    from Cons.IH [OF _ this Cons.prems(3)] s r2 cs show ?thesis by simp
  qed
qed

lemma releasing_keys_subset:
  "list_all releasing cs \<Longrightarrow> keys (run_calls cs d) \<subseteq> keys d"
proof (induction cs arbitrary: d)
  case Nil
  then show ?case by simp
next
  case (Cons c cs)
  then have "keys (apply_call c d) \<subseteq> keys d"
    by (cases c) (auto simp: mouse_release_cases split: pyval.splits)
  moreover from Cons have "keys (run_calls cs (apply_call c d)) \<subseteq> keys (apply_call c d)" by simp
  ultimately show ?case by auto
qed

lemma releasing_key_gone:
  "list_all releasing cs \<Longrightarrow> KeyRelease k \<in> set cs \<Longrightarrow> k \<notin> keys (run_calls cs d)"
proof (induction cs arbitrary: d)
  case Nil
  then show ?case by simp
next
  case (Cons c cs)
  then have cs: "list_all releasing cs" by simp
  show ?case
  proof (cases "c = KeyRelease k")
    case True
    then have "k \<notin> keys (apply_call c d)" by simp
    with releasing_keys_subset [OF cs, of "apply_call c d"] show ?thesis by auto
  next
    case False
    with Cons.prems have "KeyRelease k \<in> set cs" by simp
    from Cons.IH [OF cs this] show ?thesis by simp
  qed
qed

lemma no_key_left_held:
  assumes "release S = (cs, None)" and "KeyPress k \<in> set (fst (play (take n S)))"
  shows "k \<notin> keys (run_calls cs d) \<and> media (run_calls cs d) = {}"
proof -
  obtain c1 r1 where ri: "release_items S = (c1, r1)" by (cases "release_items S")
  with assms(1) have r1: "r1 = None" and cs: "cs = c1 @ [MediaRelease]"
    by (auto simp: release_def then_do_def outcome_defs split: option.splits)
  from play_KeyPress [OF assms(2)] have "PInt k \<in> set S" and "0 \<le> k"
    by (auto dest: in_set_takeD)
  with ri r1 have "KeyRelease k \<in> set c1"
    using release_items_KeyRelease by blast
  then have "KeyRelease k \<in> set cs" by (simp add: cs)
  moreover have "list_all releasing cs"
    using releasing_release [of S] assms(1) by simp
  ultimately have "k \<notin> keys (run_calls cs d)" by (rule releasing_key_gone [rotated])
  moreover have "media (run_calls cs d) = {}" by (simp add: cs)
  ultimately show ?thesis by simp
qed


lemma play_codes_no_MousePress: "MousePress v \<notin> set (play_codes codes)"
proof (induction codes)
  case Nil
  show ?case by simp
next
  case (Cons c cs)
  then show ?case by (cases c) simp_all
qed

lemma play_item_MousePress:
  assumes "MousePress v \<in> set (fst (play_item item))"
  shows "\<exists>d. item = PDict d \<and> map_of d ''buttons'' = Some v \<and> py_ge0 v = Inr True"
proof (cases item)
  case (PList codes)
  with assms play_codes_no_MousePress [of v codes] show ?thesis
    by (simp add: outcome_defs)
next
  case (PDict d)
  with assms show ?thesis
    by (auto simp: outcome_defs play_buttons_def play_move_def play_tone_def then_do_def
             split: option.splits sum.splits bool.splits if_splits)
qed (use assms in \<open>auto simp: outcome_defs split: if_splits\<close>)

lemma play_MousePress:
  "MousePress v \<in> set (fst (play P)) \<Longrightarrow>
     \<exists>d. PDict d \<in> set P \<and> map_of d ''buttons'' = Some v \<and> py_ge0 v = Inr True"
proof (induction P)
  case Nil
  then show ?case by (simp add: outcome_defs)
next
  case (Cons item P)
  from Cons.prems fst_then_do_subset [of "play_item item" "play P"]
  have "MousePress v \<in> set (fst (play_item item)) \<or> MousePress v \<in> set (fst (play P))"
    by auto
  then show ?case using Cons.IH play_item_MousePress [of v item] by auto
qed

lemma release_items_MouseRelease:
  "release_items S = (cs, None) \<Longrightarrow> PDict d \<in> set S \<Longrightarrow> map_of d ''buttons'' = Some v \<Longrightarrow>
     py_ge0 v = Inr True \<Longrightarrow> MouseRelease v \<in> set cs"
proof (induction S arbitrary: cs)
  case Nil
  then show ?case by simp
next
  case (Cons item S)
  obtain c1 r1 where i: "release_item item = (c1, r1)" by (cases "release_item item")
  obtain c2 r2 where s: "release_items S = (c2, r2)" by (cases "release_items S")
  from Cons.prems(1) i s have r1: "r1 = None" and r2: "r2 = None" and cs: "cs = c1 @ c2"
    by (auto simp: then_do_def split: option.splits)
  show ?case
  proof (cases "item = PDict d")
    case True
    with i Cons.prems(3,4) cs show ?thesis by (auto simp: outcome_defs)
  next
    case False
    with Cons.prems(2) have "PDict d \<in> set S" by simp
    from Cons.IH [OF _ this Cons.prems(3,4)] s r2 cs show ?thesis by simp
  qed
qed

lemma and_not_and: "(x AND NOT b) AND b = (0::int)"
  by (simp add: bit_eq_iff bit_simps)

lemma and_not_keeps: "x AND b = (0::int) \<Longrightarrow> (x AND NOT c) AND b = 0"
  by (metis and.assoc and.commute and_zero_eq)

lemma releasing_button_stays:
  "list_all releasing cs \<Longrightarrow> buttons d AND b = 0 \<Longrightarrow> buttons (run_calls cs d) AND b = 0"
proof (induction cs arbitrary: d)
  case Nil
  then show ?case by simp
next
  case (Cons c cs)
  then have "buttons (apply_call c d) AND b = 0"
    by (cases c) (auto simp: mouse_release_cases and_not_keeps split: pyval.splits)
  with Cons show ?case by simp
qed

lemma releasing_button_gone:
  "list_all releasing cs \<Longrightarrow> MouseRelease (PInt b) \<in> set cs \<Longrightarrow>
     buttons (run_calls cs d) AND b = 0"
proof (induction cs arbitrary: d)
  case Nil
  then show ?case by simp
next
  case (Cons c cs)
  then have cs: "list_all releasing cs" by simp
  show ?case
  proof (cases "c = MouseRelease (PInt b)")
    case True
    then have "buttons (apply_call c d) AND b = 0" by (simp add: and_not_and)
    from releasing_button_stays [OF cs this] show ?thesis by simp
  next
    case False
    with Cons.prems have "MouseRelease (PInt b) \<in> set cs" by simp
    from Cons.IH [OF cs this] show ?thesis by simp
  qed
qed

lemma no_button_left_held:
  assumes "release S = (cs, None)" and "MousePress (PInt b) \<in> set (fst (play (take n S)))"
  shows "buttons (run_calls cs d) AND b = 0"
proof -
  obtain c1 r1 where ri: "release_items S = (c1, r1)" by (cases "release_items S")
  with assms(1) have r1: "r1 = None" and cs: "cs = c1 @ [MediaRelease]"
    by (auto simp: release_def then_do_def outcome_defs split: option.splits)
  from play_MousePress [OF assms(2)] obtain dict where
    "PDict dict \<in> set S" and "map_of dict ''buttons'' = Some (PInt b)" and "py_ge0 (PInt b) = Inr True"
    by (auto dest: in_set_takeD)
  with ri r1 have "MouseRelease (PInt b) \<in> set c1"
    using release_items_MouseRelease by blast
  then have "MouseRelease (PInt b) \<in> set cs" by (simp add: cs)
  moreover have "list_all releasing cs"
    using releasing_release [of S] assms(1) by simp
  ultimately show ?thesis by (rule releasing_button_gone [rotated])
qed

section \<open>A tone that the release branch does not stop\<close>

text \<open>
  C1 at the failing input: the key of \<open>beep_app\<close> is pressed and its whole sequence is
  played, then the key is released. The press branch starts the tone of the dictionary
  item; the release branch releases the mouse button of the item and, because the test
  for \<open>tone\<close> is the \<open>elif\<close> of the test for \<open>buttons\<close>, never stops the tone, which
  still sounds afterwards.
\<close>

theorem tone_left_sounding:
  "key_edge beep_app 0 True =
     ([PixelSet 0 0xFFFFFF, PixelsShow, MousePress (PInt 1),
       MouseMove (PInt 0) (PInt 0) (PInt 0), ToneStop, ToneStart (PInt 440)], None)
   \<and> key_edge beep_app 0 False =
     ([MouseRelease (PInt 1), MediaRelease, PixelSet 0 0x101010, PixelsShow], None)
   \<and> tone (run_calls (fst (key_edge beep_app 0 True)) idle) = Some (PInt 440)
   \<and> tone (run_calls (fst (key_edge beep_app 0 False))
             (run_calls (fst (key_edge beep_app 0 True)) idle)) = Some (PInt 440)"
  by (simp add: key_edge_def beep_app_def release_def outcome_defs play_buttons_def play_move_def
        play_tone_def get_or_0_def idle_def)

text \<open>
  C4 at the failing input: for a dictionary item with both \<open>buttons\<close> and \<open>tone\<close> the
  release loop releases the button and makes no call to stop the tone; for an item
  with \<open>tone\<close> alone it does stop it.
\<close>

theorem release_skips_tone_of_button_item:
  "release [PDict [(''buttons'', PInt 1), (''tone'', PInt 440)]] = ([MouseRelease (PInt 1), MediaRelease], None)
   \<and> release [PDict [(''tone'', PInt 440)]] = ([ToneStop, MediaRelease], None)"
  by (simp add: release_def outcome_defs)

section \<open>A switch interrupted by the encoder\<close>

lemma frame_count_pos: "0 < frame_count height"
  by (simp add: frame_count_def Let_def)

lemma show_frames_True:
  "show_frames fs polls e k = (cs, True, k') \<Longrightarrow>
     k' = k + length fs \<and> (\<forall>j. k \<le> j \<and> j < k' \<longrightarrow> polls j = e)"
proof (induction fs arbitrary: k cs)
  case Nil
  then show ?case by simp
next
  case (Cons f fs)
  from Cons.prems have here: "polls k = e"
    by (auto split: if_splits)
  from Cons.prems obtain cs' where
    "show_frames fs polls e (Suc k) = (cs', True, k')"
    by (auto split: if_splits prod.splits)
  from Cons.IH [OF this] have "k' = Suc k + length fs"
    and rest: "\<forall>j. Suc k \<le> j \<and> j < k' \<longrightarrow> polls j = e"
    by simp_all
  moreover have "polls j = e" if "k \<le> j" and "j < k'" for j
  proof (cases "j = k")
    case True
    with here show ?thesis by simp
  next
    case False
    with that rest show ?thesis by simp
  qed
  ultimately show ?case by simp
qed

text \<open>
  A read of the encoder that differs ends the loop with \<open>False\<close> if the clock has been
  found before the deadline at the start of every round up to the one of that read.
\<close>

lemma animate_interrupted:
  assumes "0 < fc"
  shows "k \<le> j \<Longrightarrow> polls j \<noteq> e \<Longrightarrow> (j - k) div fc < length clock \<Longrightarrow>
         \<forall>r \<le> (j - k) div fc. clock ! r < t0 + ICON_DURATION \<Longrightarrow>
         snd (animate fc clock t0 polls e k) = False"
proof (induction clock arbitrary: k)
  case Nil
  then show ?case by simp
next
  case (Cons now later)
  from Cons.prems(4) have now: "now < t0 + ICON_DURATION" by auto
  obtain cs b k1 where sf: "show_frames [0..<fc] polls e k = (cs, b, k1)"
    by (cases "show_frames [0..<fc] polls e k") auto
  show ?case
  proof (cases b)
    case False
    with now sf show ?thesis by simp
  next
    case True
    with sf have sf': "show_frames [0..<fc] polls e k = (cs, True, k1)" by simp
    from show_frames_True [OF sf'] have k1: "k1 = k + fc"
      and same: "\<forall>i. k \<le> i \<and> i < k1 \<longrightarrow> polls i = e" by simp_all
    from same Cons.prems(1,2) have j: "k1 \<le> j" by (meson not_le)
    with k1 have "fc \<le> j - k" by simp
    then have d: "(j - k) div fc = Suc ((j - k1) div fc)"
      using assms k1 by (simp add: le_div_geq)
    from d Cons.prems(3) have len: "(j - k1) div fc < length later" by simp
    have tests: "\<forall>r \<le> (j - k1) div fc. later ! r < t0 + ICON_DURATION"
    proof (intro allI impI)
      fix r assume "r \<le> (j - k1) div fc"
      with d have "Suc r \<le> (j - k) div fc" by simp
      with Cons.prems(4) have "(now # later) ! Suc r < t0 + ICON_DURATION" by blast
      then show "later ! r < t0 + ICON_DURATION" by simp
    qed
    from Cons.IH [OF j Cons.prems(2) len tests]
    have "snd (animate fc later t0 polls e k1) = False" .
    with now sf' show ?thesis
      by (cases "animate fc later t0 polls e k1") simp
  qed
qed

lemma show_frames_presenting: "list_all presenting (fst (show_frames fs polls e k))"
proof (induction fs arbitrary: k)
  case Nil
  show ?case by simp
next
  case (Cons f fs)
  show ?case
    using Cons [of "Suc k"]
    by (cases "show_frames fs polls e (Suc k)") auto
qed

lemma animate_presenting: "list_all presenting (fst (animate fc clock t0 polls e k))"
proof (induction clock arbitrary: k)
  case Nil
  show ?case by simp
next
  case (Cons now later)
  obtain cs b k1 where sf: "show_frames [0..<fc] polls e k = (cs, b, k1)"
    by (cases "show_frames [0..<fc] polls e k") auto
  have cs: "list_all presenting cs"
    using show_frames_presenting [of "[0..<fc]" polls e k] sf by simp
  show ?case
    using sf cs Cons [of k1]
    by (cases b; cases "animate fc later t0 polls e k1") auto
qed

lemma presenting_frame:
  "presenting c \<Longrightarrow>
     pixels (apply_call c d) = pixels d \<and> leds (apply_call c d) = leds d
     \<and> labels (apply_call c d) = labels d \<and> title (apply_call c d) = title d"
  by (cases c) simp_all

lemma presenting_run:
  "list_all presenting cs \<Longrightarrow>
     pixels (run_calls cs d) = pixels d \<and> leds (run_calls cs d) = leds d
     \<and> labels (run_calls cs d) = labels d \<and> title (run_calls cs d) = title d"
  by (induction cs arbitrary: d) (simp_all add: presenting_frame)

lemma pixels_set_all:
  "n \<le> length (pixels d) \<Longrightarrow>
     pixels (run_calls (map (\<lambda>i. PixelSet i (f i)) [0..<n]) d) = map f [0..<n] @ drop n (pixels d)
     \<and> labels (run_calls (map (\<lambda>i. PixelSet i (f i)) [0..<n]) d) = labels d
     \<and> title (run_calls (map (\<lambda>i. PixelSet i (f i)) [0..<n]) d) = title d"
proof (induction n)
  case 0
  then show ?case by simp
next
  case (Suc n)
  then have n: "n < length (pixels d)" by simp
  from Suc have IH: "pixels (run_calls (map (\<lambda>i. PixelSet i (f i)) [0..<n]) d) = map f [0..<n] @ drop n (pixels d)"
    and IH2: "labels (run_calls (map (\<lambda>i. PixelSet i (f i)) [0..<n]) d) = labels d"
             "title (run_calls (map (\<lambda>i. PixelSet i (f i)) [0..<n]) d) = title d"
    by simp_all
  have dr: "drop n (pixels d) = pixels d ! n # drop (Suc n) (pixels d)"
    using n by (simp add: Cons_nth_drop_Suc)
  have "(map f [0..<n] @ drop n (pixels d))[n := f n] = map f [0..<Suc n] @ drop (Suc n) (pixels d)"
    by (subst dr) (simp add: list_update_append)
  with IH IH2 show ?case by simp
qed

lemma switch_interrupted:
  assumes "images (image_file_path images (icon self)) = Some height"
    and "height mod ICON_HEIGHT = 0"
    and "snd (animate (frame_count height) (icon_clock inp) (icon_t0 inp)
                (icon_polls inp) (icon_enc inp) 0) = False"
  shows "\<exists>cs st'. switch images inp self st =
           ([KeyReleaseAll, MediaRelease, MouseReleaseAll, ToneStop]
             @ map (\<lambda>i. PixelSet i (if i < length (macros self) then fst (macros self ! i) else 0)) [0..<12]
             @ [PixelsShow] @ cs, st', Inr False)
         \<and> list_all presenting cs"
proof -
  let ?a = "animate (frame_count height) (icon_clock inp) (icon_t0 inp)
              (icon_polls inp) (icon_enc inp) 0"
  obtain cs b where a: "?a = (cs, b)"
    by (cases ?a) auto
  with assms(3) have b: "b = False" by simp
  have "list_all presenting cs"
    using animate_presenting [of "frame_count height" "icon_clock inp" "icon_t0 inp"
            "icon_polls inp" "icon_enc inp" 0] a by simp
  then have "list_all presenting (DisplayShowIcon (image_file_path images (icon self)) # cs)" by simp
  moreover have "\<exists>st'. switch images inp self st =
           ([KeyReleaseAll, MediaRelease, MouseReleaseAll, ToneStop]
             @ map (\<lambda>i. PixelSet i (if i < length (macros self) then fst (macros self ! i) else 0)) [0..<12]
             @ [PixelsShow] @ (DisplayShowIcon (image_file_path images (icon self)) # cs), st', Inr False)"
    using assms(1,2) a b by (simp add: switch_def display_image_def Let_def)
  ultimately show ?thesis by blast
qed

text \<open>
  C2 (as the code behaves), on a device with twelve pixels: if the image of the
  application exists (or the default one does) with a height that is a positive multiple
  of 64, and some read of the encoder during the presentation differs from the position
  read on entry, in a round up to which every test of the \<open>while\<close> condition has found
  the clock before the deadline, then \<open>switch\<close> returns \<open>False\<close> and the twelve labels and
  the title are as before the call; the LEDs, however, show the colours of the new
  application, since they are set and shown before the icon is presented.
\<close>

theorem interrupted_switch:
  assumes "images (image_file_path images (icon self)) = Some height"
    and "0 < height" and "height mod ICON_HEIGHT = 0"
    and "icon_polls inp j \<noteq> icon_enc inp"
    and "j div frame_count height < length (icon_clock inp)"
    and "\<forall>r \<le> j div frame_count height. icon_clock inp ! r < icon_t0 inp + ICON_DURATION"
    and "length (pixels d) = 12"
  shows "snd (snd (switch images inp self st)) = Inr False
       \<and> labels (run_calls (fst (switch images inp self st)) d) = labels d
       \<and> title (run_calls (fst (switch images inp self st)) d) = title d
       \<and> leds (run_calls (fst (switch images inp self st)) d)
           = map (\<lambda>i. if i < length (macros self) then fst (macros self ! i) else 0) [0..<12]"
proof -
  let ?f = "\<lambda>i. if i < length (macros self) then fst (macros self ! i) else 0"
  let ?stop = "[KeyReleaseAll, MediaRelease, MouseReleaseAll, ToneStop]"
  let ?d1 = "run_calls ?stop d"
  let ?d2 = "run_calls (map (\<lambda>i. PixelSet i (?f i)) [0..<12]) ?d1"
  let ?d3 = "apply_call PixelsShow ?d2"
  have stopped: "snd (animate (frame_count height) (icon_clock inp) (icon_t0 inp)
                        (icon_polls inp) (icon_enc inp) 0) = False"
    using animate_interrupted [of "frame_count height" 0 j "icon_polls inp" "icon_enc inp"
            "icon_clock inp" "icon_t0 inp"] frame_count_pos [of height] assms(4,5,6)
    by simp
  from switch_interrupted [of images self height inp st, OF assms(1) assms(3) stopped]
  obtain cs st' where sw: "switch images inp self st =
      (?stop @ map (\<lambda>i. PixelSet i (?f i)) [0..<12] @ [PixelsShow] @ cs, st', Inr False)"
    and cs: "list_all presenting cs" by blast
  have d1: "pixels ?d1 = pixels d" "labels ?d1 = labels d" "title ?d1 = title d"
    by simp_all
  have "12 \<le> length (pixels ?d1)" using assms(7) d1 by simp
  from pixels_set_all [OF this, of ?f]
  have d2: "pixels ?d2 = map ?f [0..<12]" "labels ?d2 = labels d" "title ?d2 = title d"
    using assms(7) d1 by simp_all
  have d3: "leds ?d3 = map ?f [0..<12]" "labels ?d3 = labels d" "title ?d3 = title d"
    using d2 by simp_all
  have fin: "run_calls (fst (switch images inp self st)) d = run_calls cs ?d3"
    unfolding sw by (simp only: fst_conv run_calls_simps)
  show ?thesis
    unfolding fin using presenting_run [OF cs, of ?d3] d3 sw by simp
qed

lemma default_path: "image_file_path default_only ''0.bmp'' = DEFAULT_IMAGE"
  by (simp add: image_file_path_def default_only_def DEFAULT_IMAGE_def IMAGES_FOLDER_def)

theorem interrupted_switch_witness:
  "default_only (image_file_path default_only (icon copy_app)) = Some 64
   \<and> (0::nat) < 64 \<and> 64 mod ICON_HEIGHT = 0
   \<and> icon_polls turned 0 \<noteq> icon_enc turned
   \<and> 0 div frame_count 64 < length (icon_clock turned)
   \<and> icon_clock turned ! 0 < icon_t0 turned + ICON_DURATION
   \<and> length (pixels idle) = 12
   \<and> snd (snd (switch default_only turned copy_app settled)) = Inr False
   \<and> labels (run_calls (fst (switch default_only turned copy_app settled)) idle) = labels idle
   \<and> title (run_calls (fst (switch default_only turned copy_app settled)) idle) = title idle
   \<and> leds (run_calls (fst (switch default_only turned copy_app settled)) idle)
       = [0xFF0000, 0, 0, 0, 0, 0, 0, 0, 0, 0, 0, 0]"
proof -
  have 1: "default_only (image_file_path default_only (icon copy_app)) = Some 64"
    by (simp add: copy_app_def default_path default_only_def)
  have 2: "(0::nat) < 64" by simp
  have 3: "64 mod ICON_HEIGHT = 0" by (simp add: ICON_HEIGHT_def)
  have 4: "icon_polls turned 0 \<noteq> icon_enc turned"
    by (simp add: turned_def)
  have 5: "0 div frame_count 64 < length (icon_clock turned)"
    by (simp add: turned_def)
  have 6: "icon_clock turned ! 0 < icon_t0 turned + ICON_DURATION"
    by (simp add: turned_def ICON_DURATION_def)
  then have tests: "\<forall>r \<le> 0 div frame_count 64. icon_clock turned ! r < icon_t0 turned + ICON_DURATION"
    by simp
  have 7: "length (pixels idle) = 12"
    by (simp add: idle_def)
  have 8: "map (\<lambda>i. if i < length (macros copy_app) then fst (macros copy_app ! i) else 0) [0..<12]
             = [0xFF0000, 0, 0, 0, 0, 0, 0, 0, 0, 0, 0, 0]"
    by (simp add: copy_app_def upt_rec)
  from interrupted_switch [of default_only copy_app 64 turned 0 idle settled, OF 1 2 3 4 5 tests 7]
       1 2 3 4 5 6 7
  show ?thesis
    unfolding 8 by simp
qed

text \<open>
  C2 (as the specification states it) fails: an interrupted switch to \<open>copy_app\<close> has
  turned the first LED from off to red.
\<close>

theorem interrupted_switch_counterexample:
  "snd (snd (switch default_only turned copy_app settled)) = Inr False
   \<and> leds idle = [0, 0, 0, 0, 0, 0, 0, 0, 0, 0, 0, 0]
   \<and> leds (run_calls (fst (switch default_only turned copy_app settled)) idle)
       = [0xFF0000, 0, 0, 0, 0, 0, 0, 0, 0, 0, 0, 0]"
  by (simp add: switch_def display_image_def default_path copy_app_def default_only_def turned_def
        frame_count_def ICON_HEIGHT_def ICON_DURATION_def idle_def upt_rec Let_def)

section \<open>Edges without a macro\<close>

text \<open>
  C6 (as the code behaves), for a pass in which the encoder has not moved. A key event
  whose number has no macro in the active application makes no call and changes nothing
  in the controller state. A change of the encoder switch while the application has no
  thirteenth macro makes no call either, but it is recorded: \<open>last_encoder_switch\<close>
  takes the new state, and nothing else changes.
\<close>

theorem unbound_edge_dropped:
  "(last_position st = Some (encoder inp) \<and> encoder_switch inp = last_encoder_switch st
      \<and> event inp = Some (key_number, pressed)
      \<and> length (macros (apps ! app_index st)) \<le> key_number
      \<longrightarrow> tick images apps inp st = ([], st, None))
   \<and> (last_position st = Some (encoder inp) \<and> encoder_switch inp \<noteq> last_encoder_switch st
      \<and> length (macros (apps ! app_index st)) < 13
      \<longrightarrow> tick images apps inp st
            = ([], st\<lparr>last_encoder_switch := encoder_switch inp\<rparr>, None))"
  by (simp add: tick_def handle_keys_def Let_def)

theorem unbound_edge_dropped_witness:
  "last_position settled = Some (encoder stray_key)
   \<and> encoder_switch stray_key = last_encoder_switch settled
   \<and> event stray_key = Some (5, True)
   \<and> length (macros ([copy_app] ! app_index settled)) \<le> 5
   \<and> tick default_only [copy_app] stray_key settled = ([], settled, None)
   \<and> last_position settled = Some (encoder clicked)
   \<and> encoder_switch clicked \<noteq> last_encoder_switch settled
   \<and> length (macros ([copy_app] ! app_index settled)) < 13
   \<and> tick default_only [copy_app] clicked settled
        = ([], settled\<lparr>last_encoder_switch := True\<rparr>, None)"
  using unbound_edge_dropped [of settled stray_key 5 True "[copy_app]" default_only]
        unbound_edge_dropped [of settled clicked 5 True "[copy_app]" default_only]
  by (simp add: settled_def stray_key_def clicked_def copy_app_def)

text \<open>
  C6 (as the specification states it) fails for the encoder switch: \<open>copy_app\<close> has one
  macro, the switch goes from released to pressed, no call is made, and the controller
  state has changed in \<open>last_encoder_switch\<close>.
\<close>

theorem unbound_edge_counterexample:
  "length (macros ([copy_app] ! app_index settled)) < 13
   \<and> last_encoder_switch settled = False
   \<and> fst (tick default_only [copy_app] clicked settled) = []
   \<and> last_encoder_switch (fst (snd (tick default_only [copy_app] clicked settled))) = True"
  by (simp add: tick_def handle_keys_def Let_def settled_def clicked_def copy_app_def)

end
